theory Spec2Isabelle
  imports Complex_Main "HOL-Library.Word"
begin

unbundle bit_operations_syntax

section \<open>Conventions of the embedding\<close>

text \<open>
  The Python sources \<^verbatim>\<open>mvsnet/preprocess.py\<close>, \<^verbatim>\<open>mvsnet/loss.py\<close> and
  \<^verbatim>\<open>mvsnet/test.py\<close> are embedded function by function.

  \<^item> Python and numpy floating-point numbers that take part in arithmetic are idealised as
    \<open>real\<close>: the theorems below are about the formulas the code evaluates, not about
    the rounding of IEEE arithmetic.
  \<^item> A float32 sample of a PFM image takes part in no arithmetic; it is its 32-bit pattern,
    a \<open>32 word\<close>.
  \<^item> Python integers are \<open>int\<close>; array extents are \<open>nat\<close>.
  \<^item> A raised exception or a call of \<^verbatim>\<open>exit\<close> is the left summand of the result.
  \<^item> \<^verbatim>\<open>/\<close> is Python 3's true division.
\<close>

datatype py_error =
    IndexError
  | ValueError
  | ZeroDivisionError
  | NameError
  | Exception string
  | SystemExit int

section \<open>The shared resize scale of \<^verbatim>\<open>MVSGenerator.__iter__\<close> (test.py, lines 119 to 138)\<close>

text \<open>
  The loop over \<^verbatim>\<open>range(self.view_num)\<close> reads \<^verbatim>\<open>images[view].shape\<close>; at that point
  \<^verbatim>\<open>images\<close> holds exactly \<^verbatim>\<open>view_num\<close> entries (the views that were loaded, padded with
  the reference view), so the loop is a recursion over the list of the shapes
  \<open>(height, width)\<close>. The accumulator is the pair \<open>(h_scale, w_scale)\<close>. Dividing the
  float \<^verbatim>\<open>float(FLAGS.max_h)\<close> by the Python integer \<open>0\<close> raises.
\<close>

fun scale_loop :: "int \<Rightarrow> int \<Rightarrow> (nat \<times> nat) list \<Rightarrow> real \<times> real \<Rightarrow> py_error + real \<times> real" where
  "scale_loop max_h max_w [] acc = Inr acc"
| "scale_loop max_h max_w ((h, w) # views) (h_scale, w_scale) =
     (if h = 0 then Inl ZeroDivisionError
      else if w = 0 then Inl ZeroDivisionError
      else
        let height_scale = real_of_int max_h / real h;
            width_scale = real_of_int max_w / real w;
            h_scale' = (if height_scale > h_scale then height_scale else h_scale);
            w_scale' = (if width_scale > w_scale then width_scale else w_scale)
        in scale_loop max_h max_w views (h_scale', w_scale'))"

definition resize_scale :: "bool \<Rightarrow> int \<Rightarrow> int \<Rightarrow> (nat \<times> nat) list \<Rightarrow> py_error + real" where
  "resize_scale adaptive_scaling max_h max_w shapes =
     (if adaptive_scaling then
        (case scale_loop max_h max_w shapes (0, 0) of
           Inl e \<Rightarrow> Inl e
         | Inr (h_scale, w_scale) \<Rightarrow>
             if h_scale > 1 \<or> w_scale > 1 then Inl (SystemExit (- 1))
             else Inr (if w_scale > h_scale then w_scale else h_scale))
      else Inr 1)"

text \<open>The two scales of one view, and the larger of them.\<close>

definition view_scale :: "int \<Rightarrow> int \<Rightarrow> nat \<times> nat \<Rightarrow> real" where
  "view_scale max_h max_w s =
     max (real_of_int max_h / real (fst s)) (real_of_int max_w / real (snd s))"

section \<open>Camera arrays (preprocess.py)\<close>

text \<open>
  A camera is a numpy array of shape \<open>(2, 4, 4)\<close>: \<^verbatim>\<open>cam[0]\<close> is the extrinsic matrix,
  \<^verbatim>\<open>cam[1]\<close> holds the 3x3 intrinsic matrix in its upper left corner and the depth sampling
  descriptor \<open>(start, interval, count, end)\<close> in its row 3. It is modelled as nested
  lists of that shape; every index the code uses is a literal within the shape.
\<close>

type_synonym cam = "real list list list"

definition cam_zeros :: cam where
  "cam_zeros = replicate 2 (replicate 4 (replicate 4 0))"

definition cam_get :: "cam \<Rightarrow> nat \<Rightarrow> nat \<Rightarrow> nat \<Rightarrow> real" where
  "cam_get c a i j = c ! a ! i ! j"

definition cam_set :: "cam \<Rightarrow> nat \<Rightarrow> nat \<Rightarrow> nat \<Rightarrow> real \<Rightarrow> cam" where
  "cam_set c a i j v = c[a := (c ! a)[i := (c ! a ! i)[j := v]]]"

definition cam_shaped :: "cam \<Rightarrow> bool" where
  "cam_shaped c = (length c = 2 \<and> list_all (\<lambda>m. length m = 4 \<and> list_all (\<lambda>r. length r = 4) m) c)"

subsection \<open>\<^verbatim>\<open>load_cam\<close>\<close>

text \<open>
  \<^verbatim>\<open>words = file.read().split()\<close> splits the text at runs of whitespace. Assigning a
  word to an element of the float array converts it as \<^verbatim>\<open>float(word)\<close> does; that
  conversion is Python's own, so it is the parameter \<open>tofloat\<close> (\<open>None\<close> where Python
  raises ValueError). A read beyond the last word raises IndexError.
\<close>

definition is_space :: "char \<Rightarrow> bool" where
  "is_space c = (c \<in> set [CHR '' '', CHR 0x09, CHR 0x0A, CHR 0x0B, CHR 0x0C, CHR 0x0D])"

fun split_ws_aux :: "string \<Rightarrow> string \<Rightarrow> string list" where
  "split_ws_aux cur [] = (if cur = [] then [] else [rev cur])"
| "split_ws_aux cur (c # cs) =
     (if is_space c then (if cur = [] then split_ws_aux [] cs else rev cur # split_ws_aux [] cs)
      else split_ws_aux (c # cur) cs)"

definition split_ws :: "string \<Rightarrow> string list" where
  "split_ws text = split_ws_aux [] text"

definition word_at :: "(string \<Rightarrow> real option) \<Rightarrow> string list \<Rightarrow> nat \<Rightarrow> py_error + real" where
  "word_at tofloat words k =
     (if k < length words then
        (case tofloat (words ! k) of None \<Rightarrow> Inl ValueError | Some v \<Rightarrow> Inr v)
      else Inl IndexError)"

text \<open>
  The two nested loops that fill a block: the list of \<open>(i, j, index of the word)\<close> in the
  order the loops visit them, and the assignments one after the other, stopping at the
  first that raises.
\<close>

definition extrinsic_cells :: "(nat \<times> nat \<times> nat) list" where
  "extrinsic_cells = concat (map (\<lambda>i. map (\<lambda>j. (i, j, 4 * i + j + 1)) [0..<4]) [0..<4])"

definition intrinsic_cells :: "(nat \<times> nat \<times> nat) list" where
  "intrinsic_cells = concat (map (\<lambda>i. map (\<lambda>j. (i, j, 3 * i + j + 18)) [0..<3]) [0..<3])"

fun fill_cells ::
  "(string \<Rightarrow> real option) \<Rightarrow> string list \<Rightarrow> nat \<Rightarrow> (nat \<times> nat \<times> nat) list \<Rightarrow> cam \<Rightarrow> py_error + cam" where
  "fill_cells tofloat words a [] c = Inr c"
| "fill_cells tofloat words a ((i, j, k) # cells) c =
     (case word_at tofloat words k of
        Inl e \<Rightarrow> Inl e
      | Inr v \<Rightarrow> fill_cells tofloat words a cells (cam_set c a i j v))"

text \<open>
  The tail of \<^verbatim>\<open>load_cam\<close>: the dispatch on \<^verbatim>\<open>len(words)\<close>. \<open>flags_max_d\<close> is
  \<^verbatim>\<open>FLAGS.max_d\<close>, \<open>max_d\<close> the optional argument.
\<close>

definition depth_tail ::
  "(string \<Rightarrow> real option) \<Rightarrow> int \<Rightarrow> string list \<Rightarrow> real \<Rightarrow> real option \<Rightarrow> cam \<Rightarrow> py_error + cam" where
  "depth_tail tofloat flags_max_d words interval_scale max_d c =
     (if length words = 29 then
        (case word_at tofloat words 27 of Inl e \<Rightarrow> Inl e | Inr w27 \<Rightarrow>
        (case word_at tofloat words 28 of Inl e \<Rightarrow> Inl e | Inr w28 \<Rightarrow>
           (let c1 = cam_set c 1 3 0 w27;
                c2 = cam_set c1 1 3 1 (w28 * interval_scale);
                c3 = cam_set c2 1 3 2 (case max_d of None \<Rightarrow> real_of_int flags_max_d | Some d \<Rightarrow> d)
            in Inr (cam_set c3 1 3 3 (cam_get c3 1 3 0 + cam_get c3 1 3 1 * cam_get c3 1 3 2)))))
      else if length words = 30 then
        (case word_at tofloat words 27 of Inl e \<Rightarrow> Inl e | Inr w27 \<Rightarrow>
        (case word_at tofloat words 28 of Inl e \<Rightarrow> Inl e | Inr w28 \<Rightarrow>
        (case word_at tofloat words 29 of Inl e \<Rightarrow> Inl e | Inr w29 \<Rightarrow>
           (let c1 = cam_set c 1 3 0 w27;
                c2 = cam_set c1 1 3 1 (w28 * interval_scale);
                c3 = cam_set c2 1 3 2 w29
            in Inr (cam_set c3 1 3 3 (cam_get c3 1 3 0 + cam_get c3 1 3 1 * cam_get c3 1 3 2))))))
      else if length words = 31 then
        (case word_at tofloat words 27 of Inl e \<Rightarrow> Inl e | Inr w27 \<Rightarrow>
        (case word_at tofloat words 28 of Inl e \<Rightarrow> Inl e | Inr w28 \<Rightarrow>
        (case word_at tofloat words 29 of Inl e \<Rightarrow> Inl e | Inr w29 \<Rightarrow>
        (case word_at tofloat words 30 of Inl e \<Rightarrow> Inl e | Inr w30 \<Rightarrow>
           (let c1 = cam_set c 1 3 0 w27;
                c2 = cam_set c1 1 3 1 (w28 * interval_scale);
                c3 = cam_set c2 1 3 2 w29
            in Inr (cam_set c3 1 3 3 w30))))))
      else
        Inr (cam_set (cam_set (cam_set (cam_set c 1 3 0 0) 1 3 1 0) 1 3 2 0) 1 3 3 0))"

definition load_cam ::
  "(string \<Rightarrow> real option) \<Rightarrow> int \<Rightarrow> string \<Rightarrow> real \<Rightarrow> real option \<Rightarrow> py_error + cam" where
  "load_cam tofloat flags_max_d text interval_scale max_d =
     (let words = split_ws text in
      case fill_cells tofloat words 0 extrinsic_cells cam_zeros of
        Inl e \<Rightarrow> Inl e
      | Inr c0 \<Rightarrow>
          (case fill_cells tofloat words 1 intrinsic_cells c0 of
             Inl e \<Rightarrow> Inl e
           | Inr c1 \<Rightarrow> depth_tail tofloat flags_max_d words interval_scale max_d c1))"

text \<open>The depth sampling descriptor of a camera.\<close>

definition depth_start :: "cam \<Rightarrow> real" where "depth_start c = cam_get c 1 3 0"
definition depth_interval :: "cam \<Rightarrow> real" where "depth_interval c = cam_get c 1 3 1"
definition depth_count :: "cam \<Rightarrow> real" where "depth_count c = cam_get c 1 3 2"
definition depth_end :: "cam \<Rightarrow> real" where "depth_end c = cam_get c 1 3 3"

text \<open>
  A text parses into its two blocks when it has the 27 words the two loops read and the
  words of the blocks (1 to 16 and 18 to 26) convert to floats.
\<close>

definition blocks_parse :: "(string \<Rightarrow> real option) \<Rightarrow> string list \<Rightarrow> bool" where
  "blocks_parse tofloat words =
     (27 \<le> length words \<and> list_all (\<lambda>k. tofloat (words ! k) \<noteq> None) ([1..<17] @ [18..<27]))"

text \<open>Calibration texts: without depth tail (27 words), and of 29 and of 30 words.\<close>

definition calibration_27 :: string where
  "calibration_27 = ''extrinsic 1 0 0 0 0 1 0 0 0 0 1 0 0 0 0 1 intrinsic 2 0 3 0 2 3 0 0 1''"

definition calibration_29 :: string where
  "calibration_29 = ''extrinsic 1 0 0 0 0 1 0 0 0 0 1 0 0 0 0 1 intrinsic 2 0 3 0 2 3 0 0 1 425 2.5''"

definition calibration_30 :: string where
  "calibration_30 = ''extrinsic 1 0 0 0 0 1 0 0 0 0 1 0 0 0 0 1 intrinsic 2 0 3 0 2 3 0 0 1 425 2.5 192''"

subsection \<open>\<^verbatim>\<open>scale_camera\<close>: object identity made explicit\<close>

text \<open>
  Cameras are numpy arrays, which Python passes by reference. To state what is copied and
  what is mutated, the arrays live in a store: a list of cameras, an object being its
  index. \<^verbatim>\<open>np.copy\<close> allocates the next index. A reference held by the program is always
  to an allocated object.
\<close>

type_synonym ref = nat
type_synonym store = "cam list"

definition np_copy :: "store \<Rightarrow> ref \<Rightarrow> store \<times> ref" where
  "np_copy st r = (st @ [st ! r], length st)"

definition scale_camera :: "store \<Rightarrow> ref \<Rightarrow> real \<Rightarrow> store \<times> ref" where
  "scale_camera st cam scale =
     (let (st0, new_cam) = np_copy st cam;
          st1 = st0[new_cam := cam_set (st0 ! new_cam) 1 0 0 (cam_get (st0 ! cam) 1 0 0 * scale)];
          st2 = st1[new_cam := cam_set (st1 ! new_cam) 1 1 1 (cam_get (st1 ! cam) 1 1 1 * scale)];
          st3 = st2[new_cam := cam_set (st2 ! new_cam) 1 0 2 (cam_get (st2 ! cam) 1 0 2 * scale)];
          st4 = st3[new_cam := cam_set (st3 ! new_cam) 1 1 2 (cam_get (st3 ! cam) 1 1 2 * scale)]
      in (st4, new_cam))"

subsection \<open>\<^verbatim>\<open>crop_mvs_input\<close>\<close>

text \<open>
  An image is the list of its rows, a row the list of its pixels; \<^verbatim>\<open>shape[0:2]\<close> is the
  number of rows and the length of a row. \<^verbatim>\<open>a[start:stop]\<close> is Python's slice: a negative
  bound counts from the end, and both bounds are clipped to the array.
\<close>

type_synonym 'a image = "'a list list"

definition shape2 :: "'a image \<Rightarrow> nat \<times> nat" where
  "shape2 img = (length img, (case img of [] \<Rightarrow> 0 | r # _ \<Rightarrow> length r))"

definition slice_bound :: "nat \<Rightarrow> int \<Rightarrow> nat" where
  "slice_bound n i = (if i < 0 then nat (max (i + int n) 0) else min (nat i) n)"

definition py_slice :: "int \<Rightarrow> int \<Rightarrow> 'a list \<Rightarrow> 'a list" where
  "py_slice start stop xs =
     (let a = slice_bound (length xs) start; b = slice_bound (length xs) stop
      in take (b - a) (drop a xs))"

type_synonym window = "int \<times> int \<times> int \<times> int"

definition slice2 :: "window \<Rightarrow> 'a image \<Rightarrow> 'a image" where
  "slice2 win img =
     (case win of (start_h, finish_h, start_w, finish_w) \<Rightarrow>
        map (py_slice start_w finish_w) (py_slice start_h finish_h img))"

text \<open>
  The flags the function reads. \<^verbatim>\<open>base_image_size\<close> is declared as a float flag, so
  \<^verbatim>\<open>h / FLAGS.base_image_size\<close> is a float division, which raises on a zero divisor.
  \<^verbatim>\<open>int\<close> of a float truncates towards zero.
\<close>

record flags =
  view_num :: int
  height :: int
  width :: int
  base_image_size :: real

definition py_int :: "real \<Rightarrow> int" where
  "py_int x = (if 0 \<le> x then \<lfloor>x\<rfloor> else \<lceil>x\<rceil>)"

definition new_extent :: "real \<Rightarrow> int \<Rightarrow> nat \<Rightarrow> py_error + int" where
  "new_extent base limit n =
     (if int n > limit then Inr limit
      else if base = 0 then Inl ZeroDivisionError
      else Inr (py_int (real_of_int \<lceil>real n / base\<rceil> * base)))"

definition crop_start :: "nat \<Rightarrow> int \<Rightarrow> int" where
  "crop_start n new_n = \<lceil>real_of_int (int n - new_n) / 2\<rceil>"

text \<open>
  The window \<open>(start_h, finish_h, start_w, finish_w)\<close> that one pass of the loop body
  computes from the shape \<open>(h, w)\<close> of the view's image.
\<close>

definition crop_window :: "flags \<Rightarrow> nat \<times> nat \<Rightarrow> py_error + window" where
  "crop_window F s =
     (case new_extent (base_image_size F) (height F) (fst s) of
        Inl e \<Rightarrow> Inl e
      | Inr new_h \<Rightarrow>
          (case new_extent (base_image_size F) (width F) (snd s) of
             Inl e \<Rightarrow> Inl e
           | Inr new_w \<Rightarrow>
               let start_h = crop_start (fst s) new_h;
                   start_w = crop_start (snd s) new_w
               in Inr (start_h, start_h + new_h, start_w, start_w + new_w)))"

text \<open>
  The state of the loop: the list \<^verbatim>\<open>images\<close>, the store that holds the camera arrays
  (the list \<^verbatim>\<open>cams\<close> of references is never assigned to), and the loop's local variables
  \<^verbatim>\<open>start_h, finish_h, start_w, finish_w\<close>, unbound before the first pass.
\<close>

record 'a crop_state =
  cs_images :: "'a image list"
  cs_store :: store
  cs_window :: "window option"

definition crop_view :: "flags \<Rightarrow> ref list \<Rightarrow> nat \<Rightarrow> 'a crop_state \<Rightarrow> py_error + 'a crop_state" where
  "crop_view F cams view st =
     (if view \<ge> length (cs_images st) then Inl IndexError
      else
        case crop_window F (shape2 (cs_images st ! view)) of
          Inl e \<Rightarrow> Inl e
        | Inr (start_h, finish_h, start_w, finish_w) \<Rightarrow>
            let images' = (cs_images st)[view := slice2 (start_h, finish_h, start_w, finish_w) (cs_images st ! view)]
            in if view \<ge> length cams then Inl IndexError
               else
                 let r = cams ! view;
                     h1 = (cs_store st)[r := cam_set (cs_store st ! r) 1 0 2 (cam_get (cs_store st ! r) 1 0 2 - real_of_int start_w)];
                     h2 = h1[r := cam_set (h1 ! r) 1 1 2 (cam_get (h1 ! r) 1 1 2 - real_of_int start_h)]
                 in Inr \<lparr>cs_images = images', cs_store = h2,
                          cs_window = Some (start_h, finish_h, start_w, finish_w)\<rparr>)"

fun crop_loop :: "flags \<Rightarrow> ref list \<Rightarrow> nat list \<Rightarrow> 'a crop_state \<Rightarrow> py_error + 'a crop_state" where
  "crop_loop F cams [] st = Inr st"
| "crop_loop F cams (view # views) st =
     (case crop_view F cams view st of
        Inl e \<Rightarrow> Inl e
      | Inr st' \<Rightarrow> crop_loop F cams views st')"

text \<open>
  The result: the list of images, the list of camera references (the argument itself),
  the cropped depth image when one was given, and the store after the call.
\<close>

record ('a, 'b) crop_result =
  out_images :: "'a image list"
  out_cams :: "ref list"
  out_depth :: "'b image option"
  out_store :: store

definition crop_mvs_input ::
  "flags \<Rightarrow> store \<Rightarrow> 'a image list \<Rightarrow> ref list \<Rightarrow> 'b image option \<Rightarrow> py_error + ('a, 'b) crop_result" where
  "crop_mvs_input F st images cams depth_image =
     (case crop_loop F cams [0..<nat (view_num F)]
             \<lparr>cs_images = images, cs_store = st, cs_window = None\<rparr> of
        Inl e \<Rightarrow> Inl e
      | Inr s \<Rightarrow>
          (case depth_image of
             None \<Rightarrow> Inr \<lparr>out_images = cs_images s, out_cams = cams, out_depth = None,
                          out_store = cs_store s\<rparr>
           | Some d \<Rightarrow>
               (case cs_window s of
                  None \<Rightarrow> Inl NameError
                | Some win \<Rightarrow>
                    Inr \<lparr>out_images = cs_images s, out_cams = cams,
                         out_depth = Some (slice2 win d), out_store = cs_store s\<rparr>)))"

text \<open>
  What the claims say of two cameras: \<open>c'\<close> is \<open>c\<close> with the principal point
  \<open>(cx, cy) = (c[1][0][2], c[1][1][2])\<close> reduced by a crop origin, and \<open>c'\<close> is \<open>c\<close> with
  \<open>fx, fy, cx, cy\<close> multiplied by a factor; every other entry is that of \<open>c\<close>.
\<close>

definition principal_point_shifted :: "cam \<Rightarrow> cam \<Rightarrow> int \<Rightarrow> int \<Rightarrow> bool" where
  "principal_point_shifted c c' origin_x origin_y =
     (\<forall>a i j. cam_get c' a i j =
        (if a = 1 \<and> i = 0 \<and> j = 2 then cam_get c 1 0 2 - real_of_int origin_x
         else if a = 1 \<and> i = 1 \<and> j = 2 then cam_get c 1 1 2 - real_of_int origin_y
         else cam_get c a i j))"

definition intrinsics_scaled :: "cam \<Rightarrow> cam \<Rightarrow> real \<Rightarrow> bool" where
  "intrinsics_scaled c c' scale =
     (\<forall>a i j. cam_get c' a i j =
        (if a = 1 \<and> (i = 0 \<and> j = 0 \<or> i = 1 \<and> j = 1 \<or> i = 0 \<and> j = 2 \<or> i = 1 \<and> j = 2)
         then cam_get c a i j * scale
         else cam_get c a i j))"

definition origin_x :: "window \<Rightarrow> int" where
  "origin_x win = (case win of (start_h, finish_h, start_w, finish_w) \<Rightarrow> start_w)"

definition origin_y :: "window \<Rightarrow> int" where
  "origin_y win = (case win of (start_h, finish_h, start_w, finish_w) \<Rightarrow> start_h)"

text \<open>
  A sample for the examples: flags that bound a view by 2 x 2, a camera with principal
  point \<open>(10, 20)\<close>, and images of 3 x 3 and 5 x 5 pixels; the pixels of the depth image are
  numbered by row and column.
\<close>

definition example_flags :: flags where
  "example_flags = \<lparr>view_num = 2, height = 2, width = 2, base_image_size = 8\<rparr>"

definition example_cam :: cam where
  "example_cam =
     [[[1, 0, 0, 0], [0, 1, 0, 0], [0, 0, 1, 0], [0, 0, 0, 1]],
      [[100, 0, 10, 0], [0, 100, 20, 0], [0, 0, 1, 0], [425, 5 / 2, 192, 905]]]"

definition image_3x3 :: "nat image" where
  "image_3x3 = [[0, 0, 0], [0, 0, 0], [0, 0, 0]]"

definition image_5x5 :: "nat image" where
  "image_5x5 = [[0, 0, 0, 0, 0], [0, 0, 0, 0, 0], [0, 0, 0, 0, 0], [0, 0, 0, 0, 0], [0, 0, 0, 0, 0]]"

definition depth_5x5 :: "nat image" where
  "depth_5x5 = [[0, 1, 2, 3, 4], [10, 11, 12, 13, 14], [20, 21, 22, 23, 24],
                [30, 31, 32, 33, 34], [40, 41, 42, 43, 44]]"

section \<open>Losses and accuracies (loss.py)\<close>

text \<open>
  \<^verbatim>\<open>y_true\<close> and \<^verbatim>\<open>y_pred\<close> are tensors of one shape \<open>[B, H, W, 1]\<close>. Every reduction of
  the code runs over the axes \<open>[1, 2, 3]\<close> or over all axes, so a sample is the list of its
  pixels, and a pixel is the pair (ground truth, prediction) at one position: a batch is
  a list of samples. \<^verbatim>\<open>interval\<close> is a tensor that \<^verbatim>\<open>tf.reshape\<close> brings to shape \<open>[B]\<close>,
  which fails unless it holds \<open>B\<close> values.

  \<^verbatim>\<open>tf.math.pow\<close> is \<open>powr\<close>, with which it agrees on a positive base. A mean over an
  empty batch and a division by a zero interval, which give NaN or an infinity in floating
  point, are outside the idealisation.
\<close>

type_synonym sample = "(real \<times> real) list"

definition mask_true :: "real \<Rightarrow> real" where
  "mask_true y = (if y \<noteq> 0 then 1 else 0)"

definition valid_count :: "sample \<Rightarrow> real" where
  "valid_count s = sum_list (map (\<lambda>(t, p). mask_true t) s)"

definition reduce_mean :: "real list \<Rightarrow> real" where
  "reduce_mean xs = sum_list xs / real (length xs)"

definition masked_loss :: "sample list \<Rightarrow> real list \<Rightarrow> real \<Rightarrow> real \<Rightarrow> py_error + real list" where
  "masked_loss batch interval alpha beta =
     (if length interval \<noteq> length batch then Inl ValueError
      else
        let denominator0 = map (\<lambda>s. \<bar>valid_count s\<bar> + 1 / 10 ^ 6) batch;
            denominator = (if beta \<noteq> 1 then map (\<lambda>d. d powr beta) denominator0 else denominator0);
            numerator = map (\<lambda>s. sum_list (map (\<lambda>(t, p).
                          let epsilon = 0.005 * t;
                              n0 = \<bar>t - p\<bar> + epsilon;
                              n1 = (if alpha \<noteq> 1 then n0 powr alpha else n0)
                          in n1 * mask_true t) s)) batch;
            normalization = map (\<lambda>i. reduce_mean denominator powr (beta - 1) / (i powr alpha)) interval;
            total = sum_list (map2 (\<lambda>n d. n / d) numerator denominator)
        in Inr (map (\<lambda>n. total * n) normalization))"

text \<open>
  The two accuracies differ in the threshold only; the source repeats the body, and so does
  the model.
\<close>

definition less_one_percentage :: "sample list \<Rightarrow> real list \<Rightarrow> py_error + real" where
  "less_one_percentage batch interval =
     (if length interval \<noteq> length batch then Inl ValueError
      else
        let denom = \<bar>sum_list (map valid_count batch)\<bar> + 1 / 10 ^ 6;
            less_one_image = map2 (\<lambda>s i. map (\<lambda>(t, p).
                               mask_true t * (if \<bar>t - p\<bar> / i \<le> 1 then 1 else 0)) s) batch interval
        in Inr (sum_list (map sum_list less_one_image) / denom))"

definition less_three_percentage :: "sample list \<Rightarrow> real list \<Rightarrow> py_error + real" where
  "less_three_percentage batch interval =
     (if length interval \<noteq> length batch then Inl ValueError
      else
        let denom = \<bar>sum_list (map valid_count batch)\<bar> + 1 / 10 ^ 6;
            less_three_image = map2 (\<lambda>s i. map (\<lambda>(t, p).
                                 mask_true t * (if \<bar>t - p\<bar> / i \<le> 3 then 1 else 0)) s) batch interval
        in Inr (sum_list (map sum_list less_three_image) / denom))"

text \<open>
  \<^verbatim>\<open>mvsnet_regression_loss\<close>: \<^verbatim>\<open>depth_start\<close> and \<^verbatim>\<open>depth_end\<close> are tensors of one shape
  \<open>[B]\<close>, here the list of the pairs (start, end). The batch is the list of the pixel pairs
  (\<^verbatim>\<open>depth_image\<close>, \<^verbatim>\<open>estimated_depth_image\<close>).
\<close>

definition mvsnet_regression_loss ::
  "sample list \<Rightarrow> (real \<times> real) list \<Rightarrow> real \<Rightarrow> real \<Rightarrow> py_error + real list \<times> real \<times> real" where
  "mvsnet_regression_loss batch depth_range alpha beta =
     (let depth_interval = map (\<lambda>(depth_start, depth_end). (depth_end - depth_start) / 191) depth_range
      in case masked_loss batch depth_interval alpha beta of
           Inl e \<Rightarrow> Inl e
         | Inr loss \<Rightarrow>
             (case less_one_percentage batch depth_interval of
                Inl e \<Rightarrow> Inl e
              | Inr less_one_accuracy \<Rightarrow>
                  (case less_three_percentage batch depth_interval of
                     Inl e \<Rightarrow> Inl e
                   | Inr less_three_accuracy \<Rightarrow> Inr (loss, less_one_accuracy, less_three_accuracy))))"

text \<open>
  The loss as the specification words it: with \<open>V\<close> the valid-pixel count of a sample
  (with its epsilon floor), the batch sum of (masked error sum / \<open>V ^ \<beta>\<close>), multiplied
  by \<open>mean(V) ^ (\<beta> - 1) / interval ^ \<alpha>\<close>.
\<close>

definition masked_loss_spec :: "sample list \<Rightarrow> real list \<Rightarrow> real \<Rightarrow> real \<Rightarrow> real list" where
  "masked_loss_spec batch interval alpha beta =
     (let V = map (\<lambda>s. valid_count s + 1 / 10 ^ 6) batch;
          err = map (\<lambda>s. sum_list (map (\<lambda>(t, p). ((\<bar>t - p\<bar> + 0.005 * t) powr alpha) * mask_true t) s)) batch;
          total = sum_list (map2 (\<lambda>e v. e / (v powr beta)) err V)
      in map (\<lambda>i. total * (reduce_mean V powr (beta - 1) / (i powr alpha))) interval)"


section \<open>The PFM codec (preprocess.py)\<close>

subsection \<open>Text: decimal numbers, lines\<close>

text \<open>
  A file is the string of its bytes. \<^verbatim>\<open>'%d' % n\<close> prints a natural number in decimal.
  \<^verbatim>\<open>'%f' % x\<close> prints the sign, the integer part and six decimals of \<open>x\<close> rounded to
  the nearest millionth (a binary float is never half-way between two millionths, so the
  rule for ties does not matter; the model rounds them up).
\<close>

definition newline :: char where
  "newline = CHR 0x0A"






definition is_digit :: "char \<Rightarrow> bool" where
  "is_digit c = (48 \<le> (of_char c :: nat) \<and> (of_char c :: nat) \<le> 57)"

definition digit_val :: "char \<Rightarrow> nat" where
  "digit_val c = of_char c - 48"

definition nat_of_digits :: "string \<Rightarrow> nat" where
  "nat_of_digits ds = foldl (\<lambda>a c. 10 * a + digit_val c) 0 ds"

definition rstrip :: "string \<Rightarrow> string" where
  "rstrip s = rev (dropWhile is_space (rev s))"

definition strip :: "string \<Rightarrow> string" where
  "strip s = dropWhile is_space (rstrip s)"

text \<open>
  The plain decimal literals that \<^verbatim>\<open>float\<close> reads: an optional sign, digits, and
  optionally a point and digits, with a digit on at least one side of the point, between
  optional whitespace. \<^verbatim>\<open>float\<close> reads more (exponents, \<^verbatim>\<open>inf\<close>, \<^verbatim>\<open>nan\<close>); the functions
  below take the conversion as the parameter \<open>tofloat\<close>, and the theorems ask of it only
  that it reads plain decimals as \<open>py_decimal\<close> does.
\<close>

definition unsigned_decimal :: "string \<Rightarrow> real option" where
  "unsigned_decimal s =
     (let ip = takeWhile is_digit s; r = dropWhile is_digit s
      in case r of
           [] \<Rightarrow> (if ip = [] then None else Some (real (nat_of_digits ip)))
         | c # fp \<Rightarrow>
             if c = CHR ''.'' \<and> list_all is_digit fp \<and> (ip @ fp) \<noteq> []
             then Some (real (nat_of_digits (ip @ fp)) / 10 ^ length fp)
             else None)"

definition py_decimal :: "string \<Rightarrow> real option" where
  "py_decimal s =
     (case strip s of
        [] \<Rightarrow> None
      | c # cs \<Rightarrow>
          if c = CHR ''-'' then map_option uminus (unsigned_decimal cs)
          else if c = CHR ''+'' then unsigned_decimal cs
          else unsigned_decimal (c # cs))"




subsection \<open>Arrays of float32\<close>





fun rows :: "nat \<Rightarrow> nat \<Rightarrow> 'a list \<Rightarrow> 'a list list" where
  "rows 0 n xs = []"
| "rows (Suc h) n xs = take n xs # rows h n (drop n xs)"










subsection \<open>\<^verbatim>\<open>write_pfm\<close> and \<^verbatim>\<open>load_pfm\<close>\<close>












section \<open>Theorems\<close>

subsection \<open>The shared resize scale\<close>

lemma scale_loop_fold:
  "\<forall>s \<in> set shapes. 0 < fst s \<and> 0 < snd s \<Longrightarrow>
   scale_loop max_h max_w shapes (a, b) =
     Inr (fold (\<lambda>s acc. max (real_of_int max_h / real (fst s)) acc) shapes a,
          fold (\<lambda>s acc. max (real_of_int max_w / real (snd s)) acc) shapes b)"
proof (induction shapes arbitrary: a b)
  case Nil
  show ?case by simp
next
  case (Cons s shapes)
  obtain h w where s: "s = (h, w)" by (cases s)
  from Cons.prems have pos: "0 < h" "0 < w" and rest: "\<forall>s \<in> set shapes. 0 < fst s \<and> 0 < snd s"
    by (simp_all add: s)
  show ?case
    using pos Cons.IH [OF rest] by (simp add: s Let_def max_def)
qed

lemma fold_max_Max:
  fixes f :: "'a \<Rightarrow> real"
  shows "fold (\<lambda>s acc. max (f s) acc) xs a = Max (insert a (f ` set xs))"
proof (induction xs arbitrary: a)
  case Nil
  show ?case by simp
next
  case (Cons x xs)
  have "Max (insert (max (f x) a) (f ` set xs)) = Max (insert a (insert (f x) (f ` set xs)))"
  proof (cases "f ` set xs = {}")
    case True
    then show ?thesis by (simp add: max.commute)
  next
    case False
    then show ?thesis by (simp add: max.assoc max.commute max.left_commute)
  qed
  with Cons.IH [of "max (f x) a"] show ?case by simp
qed

lemma Max_image_max:
  fixes f g :: "'a \<Rightarrow> real"
  assumes "finite S" and "S \<noteq> {}"
  shows "Max ((\<lambda>s. max (f s) (g s)) ` S) = max (Max (f ` S)) (Max (g ` S))"
  using assms
proof (induction S rule: finite_ne_induct)
  case (singleton x)
  show ?case by simp
next
  case (insert x F)
  then show ?case by (simp add: max.assoc max.left_commute)
qed

text \<open>
  Claim C4. With adaptive scaling on, for a non-empty list of views of positive native sizes
  and positive bounds \<open>max_h\<close>, \<open>max_w\<close>, the shared scale is the maximum over all views of
  the larger of the view's height scale \<open>max_h / h\<close> and width scale \<open>max_w / w\<close>; the
  step exits (instead of upsampling) exactly when that maximum exceeds 1, and returns it
  otherwise.
\<close>

theorem resize_scale_is_max_of_view_scales:
  assumes "shapes \<noteq> []"
    and "\<forall>s \<in> set shapes. 0 < fst s \<and> 0 < snd s"
    and "0 < max_h" and "0 < max_w"
  shows "resize_scale True max_h max_w shapes =
           (if Max (view_scale max_h max_w ` set shapes) > 1 then Inl (SystemExit (- 1))
            else Inr (Max (view_scale max_h max_w ` set shapes)))"
proof -
  let ?fh = "\<lambda>s. real_of_int max_h / real (fst s)"
  let ?fw = "\<lambda>s. real_of_int max_w / real (snd s)"
  let ?H = "Max (?fh ` set shapes)" and ?W = "Max (?fw ` set shapes)"
  have ne: "set shapes \<noteq> {}" using assms(1) by simp
  have posh: "\<forall>x \<in> ?fh ` set shapes. 0 \<le> x" and posw: "\<forall>x \<in> ?fw ` set shapes. 0 \<le> x"
    using assms by auto
  have nonneg: "0 \<le> Max A" if "finite A" "A \<noteq> {}" "\<forall>x \<in> A. 0 \<le> x" for A :: "real set"
  proof -
    from that(2) obtain x where x: "x \<in> A" by blast
    with that(3) have "0 \<le> x" by blast
    also have "x \<le> Max A" using that(1) x by (rule Max_ge)
    finally show ?thesis .
  qed
  have H0: "Max (insert 0 (?fh ` set shapes)) = ?H"
    using ne nonneg [OF _ _ posh] by (simp add: max_def)
  have W0: "Max (insert 0 (?fw ` set shapes)) = ?W"
    using ne nonneg [OF _ _ posw] by (simp add: max_def)
  have loop: "scale_loop max_h max_w shapes (0, 0) = Inr (?H, ?W)"
    using scale_loop_fold [OF assms(2), of max_h max_w 0 0]
    by (simp add: fold_max_Max H0 W0)
  have "view_scale max_h max_w ` set shapes = (\<lambda>s. max (?fh s) (?fw s)) ` set shapes"
    by (simp add: view_scale_def)
  also have "Max \<dots> = max ?H ?W"
    using ne by (simp add: Max_image_max)
  finally have M: "Max (view_scale max_h max_w ` set shapes) = max ?H ?W" .
  show ?thesis
    unfolding resize_scale_def M using loop by (auto simp: max_def)
qed

theorem resize_scale_example:
  "resize_scale True 384 512 [(768, 1024), (600, 800)] = Inr (16 / 25)"
proof -
  have a: "[(768, 1024), (600, 800)] \<noteq> ([] :: (nat \<times> nat) list)" by simp
  have b: "\<forall>s \<in> set [(768 :: nat, 1024 :: nat), (600, 800)]. 0 < fst s \<and> 0 < snd s" by simp
  have c: "(0 :: int) < 384" and d: "(0 :: int) < 512" by simp_all
  have "resize_scale True 384 512 [(768, 1024), (600, 800)] =
          (if Max (view_scale 384 512 ` set [(768, 1024), (600, 800)]) > 1
           then Inl (SystemExit (- 1))
           else Inr (Max (view_scale 384 512 ` set [(768, 1024), (600, 800)])))"
    by (rule resize_scale_is_max_of_view_scales [OF a b c d])
  also have "Max (view_scale 384 512 ` set [(768, 1024), (600, 800)]) = 16 / 25"
    by (simp add: view_scale_def)
  finally show ?thesis using a b c d by simp
qed

subsection \<open>Losses and accuracies\<close>

lemma valid_count_filter:
  "valid_count s = real (length (filter (\<lambda>(t, p). t \<noteq> 0) s))"
  unfolding valid_count_def by (induction s) (auto simp: mask_true_def)

lemma valid_count_nonneg: "0 \<le> valid_count s"
  by (simp add: valid_count_filter)







lemma masked_loss_returns:
  "length interval = length batch \<Longrightarrow> \<exists>l. masked_loss batch interval alpha beta = Inr l"
  by (simp add: masked_loss_def Let_def)

text \<open>
  Claim C9. For every depth range (one pair per sample of the batch),
  \<^verbatim>\<open>mvsnet_regression_loss\<close> returns, and its three results are the loss and the two
  accuracies computed with the interval \<open>(depth_end - depth_start) / 191\<close>: the number of
  depth bins is no argument of the function and 191 is a constant.
\<close>

theorem regression_loss_interval:
  assumes "length depth_range = length batch"
  shows "\<exists>loss a1 a3.
           mvsnet_regression_loss batch depth_range alpha beta = Inr (loss, a1, a3)
         \<and> masked_loss batch (map (\<lambda>(s, e). (e - s) / 191) depth_range) alpha beta = Inr loss
         \<and> less_one_percentage batch (map (\<lambda>(s, e). (e - s) / 191) depth_range) = Inr a1
         \<and> less_three_percentage batch (map (\<lambda>(s, e). (e - s) / 191) depth_range) = Inr a3"
proof -
  let ?iv = "map (\<lambda>(s, e). (e - s) / 191) depth_range"
  have len: "length ?iv = length batch" using assms by simp
  obtain l where l: "masked_loss batch ?iv alpha beta = Inr l"
    using masked_loss_returns [OF len] by blast
  obtain a1 where a1: "less_one_percentage batch ?iv = Inr a1"
    using len by (simp add: less_one_percentage_def Let_def)
  obtain a3 where a3: "less_three_percentage batch ?iv = Inr a3"
    using len by (simp add: less_three_percentage_def Let_def)
  show ?thesis
    using l a1 a3 by (simp add: mvsnet_regression_loss_def)
qed

theorem regression_loss_interval_example:
  "mvsnet_regression_loss [[(2, 2), (0, 7)]] [(425, 807)] 1 1
     = Inr ([5000 / 1000001], 1000000 / 1000001, 1000000 / 1000001)"
proof -
  have "length [(425, 807 :: real)] = length [[(2, 2), (0, 7 :: real)]]" by simp
  from regression_loss_interval [OF this, of 1 1]
  obtain loss a1 a3 where
    r: "mvsnet_regression_loss [[(2, 2), (0, 7)]] [(425, 807)] 1 1 = Inr (loss, a1, a3)"
    and l: "masked_loss [[(2, 2), (0, 7)]] (map (\<lambda>(s, e). (e - s) / 191) [(425, 807)]) 1 1 = Inr loss"
    and o: "less_one_percentage [[(2, 2), (0, 7)]] (map (\<lambda>(s, e). (e - s) / 191) [(425, 807)]) = Inr a1"
    and t: "less_three_percentage [[(2, 2), (0, 7)]] (map (\<lambda>(s, e). (e - s) / 191) [(425, 807)]) = Inr a3"
    by blast
  from l have "loss = [5000 / 1000001]"
    by (simp add: masked_loss_def valid_count_def mask_true_def reduce_mean_def)
  moreover from o have "a1 = 1000000 / 1000001"
    by (simp add: less_one_percentage_def valid_count_def mask_true_def)
  moreover from t have "a3 = 1000000 / 1000001"
    by (simp add: less_three_percentage_def valid_count_def mask_true_def)
  ultimately show ?thesis using r by simp
qed

text \<open>
  Claim C2, at \<open>\<beta> = 2\<close>. One sample with two valid pixels, each predicted exactly at
  depth 1, interval 1, \<open>\<alpha> = 1\<close>: the code returns \<open>0.01\<close>, since it takes the mean of the
  denominators after they were raised to the power \<open>\<beta>\<close>; the loss as specified, with the
  mean of the valid-pixel counts, is \<open>0.01 / 2.000001\<close>.
\<close>

theorem masked_loss_normalization_at_beta_two:
  "masked_loss [[(1, 1), (1, 1)]] [1] 1 2 = Inr [1 / 100]
   \<and> masked_loss_spec [[(1, 1), (1, 1)]] [1] 1 2 = [10000 / 2000001]"
  by (simp add: masked_loss_def masked_loss_spec_def valid_count_def mask_true_def
      reduce_mean_def power2_eq_square)

subsection \<open>Reading a camera\<close>

lemma cam_shaped_zeros: "cam_shaped cam_zeros"
  by (simp add: cam_shaped_def cam_zeros_def list_all_length)

lemma cam_shaped_nth:
  "cam_shaped c \<Longrightarrow> a < 2 \<Longrightarrow> length (c ! a) = 4"
  "cam_shaped c \<Longrightarrow> a < 2 \<Longrightarrow> i < 4 \<Longrightarrow> length (c ! a ! i) = 4"
  by (auto simp: cam_shaped_def list_all_length)

lemma cam_shaped_set:
  assumes "cam_shaped c"
  shows "cam_shaped (cam_set c a i j v)"
proof (cases "a < length c")
  case False
  then show ?thesis using assms by (simp add: cam_set_def list_update_beyond)
next
  case True
  have len: "length ((c ! a)[i := (c ! a ! i)[j := v]]) = 4"
    using assms True by (simp add: cam_shaped_def list_all_length)
  have rows: "length ((c ! a)[i := (c ! a ! i)[j := v]] ! n) = 4" if "n < 4" for n
    using assms True that by (cases "n = i") (auto simp: cam_shaped_def list_all_length)
  show ?thesis
    using assms True len rows
    by (auto simp: cam_shaped_def cam_set_def list_all_length nth_list_update)
qed

lemma cam_get_set:
  assumes "cam_shaped c" and "a < 2" and "i < 4" and "j < 4"
  shows "cam_get (cam_set c a i j v) a' i' j' =
           (if a' = a \<and> i' = i \<and> j' = j then v else cam_get c a' i' j')"
  using assms cam_shaped_nth [of c a] cam_shaped_nth(2) [of c a i]
  by (auto simp: cam_get_def cam_set_def cam_shaped_def nth_list_update)

lemma fill_cells_result:
  assumes "cam_shaped c" and "a < 2"
    and "\<forall>(i, j, k) \<in> set cells. i < 4 \<and> j < 4 \<and> k < length words \<and> tofloat (words ! k) \<noteq> None"
    and "distinct (map (\<lambda>(i, j, k). (i, j)) cells)"
  shows "\<exists>c'. fill_cells tofloat words a cells c = Inr c' \<and> cam_shaped c'
           \<and> (\<forall>(i, j, k) \<in> set cells. Some (cam_get c' a i j) = tofloat (words ! k))
           \<and> (\<forall>a' i' j'. a' \<noteq> a \<or> (i', j') \<notin> set (map (\<lambda>(i, j, k). (i, j)) cells)
                 \<longrightarrow> cam_get c' a' i' j' = cam_get c a' i' j')"
  using assms
proof (induction cells arbitrary: c)
  case Nil
  then show ?case by simp
next
  case (Cons cell cells)
  obtain i j k where cell: "cell = (i, j, k)" by (cases cell)
  from Cons.prems(3) obtain v where v: "i < 4" "j < 4" "k < length words" "tofloat (words ! k) = Some v"
    by (auto simp: cell)
  let ?c = "cam_set c a i j v"
  have sh: "cam_shaped ?c" using Cons.prems(1) by (rule cam_shaped_set)
  have rest: "\<forall>(i, j, k) \<in> set cells. i < 4 \<and> j < 4 \<and> k < length words \<and> tofloat (words ! k) \<noteq> None"
    and dist: "distinct (map (\<lambda>(i, j, k). (i, j)) cells)"
    and fresh: "(i, j) \<notin> set (map (\<lambda>(i, j, k). (i, j)) cells)"
    using Cons.prems(3,4) by (auto simp: cell)
  from Cons.IH [OF sh Cons.prems(2) rest dist]
  obtain c' where c': "fill_cells tofloat words a cells ?c = Inr c'" "cam_shaped c'"
    "\<forall>(i, j, k) \<in> set cells. Some (cam_get c' a i j) = tofloat (words ! k)"
    "\<forall>a' i' j'. a' \<noteq> a \<or> (i', j') \<notin> set (map (\<lambda>(i, j, k). (i, j)) cells)
        \<longrightarrow> cam_get c' a' i' j' = cam_get ?c a' i' j'"
    by blast
  have step: "fill_cells tofloat words a (cell # cells) c = Inr c'"
    using v c'(1) by (simp add: cell word_at_def)
  have here: "cam_get c' a i j = v"
    using c'(4) fresh cam_get_set [OF Cons.prems(1,2) v(1,2)] by simp
  have other: "cam_get c' a' i' j' = cam_get c a' i' j'"
    if "a' \<noteq> a \<or> (i', j') \<notin> set (map (\<lambda>(i, j, k). (i, j)) (cell # cells))" for a' i' j'
  proof -
    from that have "a' \<noteq> a \<or> (i', j') \<notin> set (map (\<lambda>(i, j, k). (i, j)) cells)"
      and ne: "\<not> (a' = a \<and> i' = i \<and> j' = j)"
      by (auto simp: cell)
    with c'(4) have "cam_get c' a' i' j' = cam_get ?c a' i' j'" by blast
    also have "\<dots> = cam_get c a' i' j'"
      using ne by (auto simp add: cam_get_set [OF Cons.prems(1,2) v(1,2)])
    finally show ?thesis .
  qed
  show ?case
    using step c'(2,3) here v(4) other by (auto simp: cell)
qed

lemma extrinsic_cells_eq:
  "extrinsic_cells = [(0,0,1),(0,1,2),(0,2,3),(0,3,4),(1,0,5),(1,1,6),(1,2,7),(1,3,8),
                      (2,0,9),(2,1,10),(2,2,11),(2,3,12),(3,0,13),(3,1,14),(3,2,15),(3,3,16)]"
  by (simp add: extrinsic_cells_def upt_rec)

lemma intrinsic_cells_eq:
  "intrinsic_cells = [(0,0,18),(0,1,19),(0,2,20),(1,0,21),(1,1,22),(1,2,23),(2,0,24),(2,1,25),(2,2,26)]"
  by (simp add: intrinsic_cells_def upt_rec)

lemma extrinsic_cells_mem: "i < 4 \<Longrightarrow> j < 4 \<Longrightarrow> (i, j, 4 * i + j + 1) \<in> set extrinsic_cells"
  by (fastforce simp: extrinsic_cells_def image_iff)

lemma intrinsic_cells_mem: "i < 3 \<Longrightarrow> j < 3 \<Longrightarrow> (i, j, 3 * i + j + 18) \<in> set intrinsic_cells"
  by (fastforce simp: intrinsic_cells_def image_iff)

lemma load_cam_blocks:
  assumes "blocks_parse tofloat words"
  shows "\<exists>c0 c1. fill_cells tofloat words 0 extrinsic_cells cam_zeros = Inr c0
           \<and> fill_cells tofloat words 1 intrinsic_cells c0 = Inr c1
           \<and> cam_shaped c1
           \<and> (\<forall>i<4. \<forall>j<4. Some (cam_get c1 0 i j) = tofloat (words ! (4 * i + j + 1)))
           \<and> (\<forall>i<3. \<forall>j<3. Some (cam_get c1 1 i j) = tofloat (words ! (3 * i + j + 18)))
           \<and> (\<forall>j<4. cam_get c1 1 3 j = 0)"
proof -
  have len: "27 \<le> length words"
    and ok: "\<forall>k \<in> set ([1..<17] @ [18..<27]). tofloat (words ! k) \<noteq> None"
    using assms by (auto simp: blocks_parse_def list_all_iff)
  have ok1: "tofloat (words ! k) \<noteq> None" if "1 \<le> k" "k < 17" for k
    using ok that by (simp del: upt_rec_numeral)
  have ok2: "tofloat (words ! k) \<noteq> None" if "18 \<le> k" "k < 27" for k
    using ok that by (simp del: upt_rec_numeral)
  have e: "\<forall>(i, j, k) \<in> set extrinsic_cells. i < 4 \<and> j < 4 \<and> k < length words \<and> tofloat (words ! k) \<noteq> None"
    using len ok1 by (auto simp: extrinsic_cells_def)
  have i: "\<forall>(i, j, k) \<in> set intrinsic_cells. i < 4 \<and> j < 4 \<and> k < length words \<and> tofloat (words ! k) \<noteq> None"
    using len ok2 by (auto simp: intrinsic_cells_def)
  have de: "distinct (map (\<lambda>(i, j, k). (i, j)) extrinsic_cells)"
    by (simp add: extrinsic_cells_eq)
  have di: "distinct (map (\<lambda>(i, j, k). (i, j)) intrinsic_cells)"
    by (simp add: intrinsic_cells_eq)
  from fill_cells_result [OF cam_shaped_zeros _ e de, of 0]
  obtain c0 where c0: "fill_cells tofloat words 0 extrinsic_cells cam_zeros = Inr c0" "cam_shaped c0"
    "\<forall>(i, j, k) \<in> set extrinsic_cells. Some (cam_get c0 0 i j) = tofloat (words ! k)"
    "\<forall>a' i' j'. a' \<noteq> 0 \<or> (i', j') \<notin> set (map (\<lambda>(i, j, k). (i, j)) extrinsic_cells)
        \<longrightarrow> cam_get c0 a' i' j' = cam_get cam_zeros a' i' j'"
    by auto
  from fill_cells_result [OF c0(2) _ i di, of 1]
  obtain c1 where c1: "fill_cells tofloat words 1 intrinsic_cells c0 = Inr c1" "cam_shaped c1"
    "\<forall>(i, j, k) \<in> set intrinsic_cells. Some (cam_get c1 1 i j) = tofloat (words ! k)"
    "\<forall>a' i' j'. a' \<noteq> 1 \<or> (i', j') \<notin> set (map (\<lambda>(i, j, k). (i, j)) intrinsic_cells)
        \<longrightarrow> cam_get c1 a' i' j' = cam_get c0 a' i' j'"
    by auto
  have ext: "Some (cam_get c1 0 i j) = tofloat (words ! (4 * i + j + 1))" if "i < 4" "j < 4" for i j
  proof -
    have "cam_get c1 0 i j = cam_get c0 0 i j" using c1(4) by simp
    then show ?thesis using c0(3) extrinsic_cells_mem [OF that] by auto
  qed
  have intr: "Some (cam_get c1 1 i j) = tofloat (words ! (3 * i + j + 18))" if "i < 3" "j < 3" for i j
    using c1(3) intrinsic_cells_mem [OF that] by auto
  have row3: "cam_get c1 1 3 j = 0" if "j < 4" for j
  proof -
    have "(3, j) \<notin> set (map (\<lambda>(i, j, k). (i, j)) intrinsic_cells)"
      by (simp add: intrinsic_cells_eq)
    then have "cam_get c1 1 3 j = cam_get c0 1 3 j" using c1(4) by blast
    also have "\<dots> = cam_get cam_zeros 1 3 j" using c0(4) by simp
    also have "\<dots> = 0"
      using that by (simp add: cam_get_def cam_zeros_def)
    finally show ?thesis .
  qed
  show ?thesis using c0(1) c1(1,2) ext intr row3 by blast
qed

text \<open>
  Claim C8. A calibration text that parses into its extrinsic and intrinsic blocks and
  whose number of words is not 29, 30 or 31 does not make \<^verbatim>\<open>load_cam\<close> raise: the camera
  returned has the depth sampling descriptor (start, interval, count, end) all zero, and
  its extrinsic and intrinsic blocks hold the numbers of the text.
\<close>

theorem load_cam_other_token_count:
  assumes "blocks_parse tofloat (split_ws text)"
    and "length (split_ws text) \<noteq> 29" and "length (split_ws text) \<noteq> 30"
    and "length (split_ws text) \<noteq> 31"
  shows "\<exists>c. load_cam tofloat flags_max_d text interval_scale max_d = Inr c
           \<and> depth_start c = 0 \<and> depth_interval c = 0 \<and> depth_count c = 0 \<and> depth_end c = 0
           \<and> (\<forall>i<4. \<forall>j<4. Some (cam_get c 0 i j) = tofloat (split_ws text ! (4 * i + j + 1)))
           \<and> (\<forall>i<3. \<forall>j<3. Some (cam_get c 1 i j) = tofloat (split_ws text ! (3 * i + j + 18)))"
proof -
  let ?words = "split_ws text"
  from load_cam_blocks [OF assms(1)]
  obtain c0 c1 where c: "fill_cells tofloat ?words 0 extrinsic_cells cam_zeros = Inr c0"
    "fill_cells tofloat ?words 1 intrinsic_cells c0 = Inr c1" "cam_shaped c1"
    "\<forall>i<4. \<forall>j<4. Some (cam_get c1 0 i j) = tofloat (?words ! (4 * i + j + 1))"
    "\<forall>i<3. \<forall>j<3. Some (cam_get c1 1 i j) = tofloat (?words ! (3 * i + j + 18))"
    by blast
  let ?c = "cam_set (cam_set (cam_set (cam_set c1 1 3 0 0) 1 3 1 0) 1 3 2 0) 1 3 3 0"
  have load: "load_cam tofloat flags_max_d text interval_scale max_d = Inr ?c"
    using c(1,2) assms(2-4) by (simp add: load_cam_def depth_tail_def)
  have get: "cam_get ?c a i j = (if a = 1 \<and> i = 3 then (if j < 4 then 0 else cam_get c1 a i j) else cam_get c1 a i j)"
    for a i j
    using c(3) by (auto simp: cam_get_set cam_shaped_set)
  have "depth_start ?c = 0" "depth_interval ?c = 0" "depth_count ?c = 0" "depth_end ?c = 0"
    unfolding depth_start_def depth_interval_def depth_count_def depth_end_def get by simp_all
  moreover have "\<forall>i<4. \<forall>j<4. Some (cam_get ?c 0 i j) = tofloat (?words ! (4 * i + j + 1))"
    unfolding get using c(4) by simp
  moreover have "\<forall>i<3. \<forall>j<3. Some (cam_get ?c 1 i j) = tofloat (?words ! (3 * i + j + 18))"
    unfolding get using c(5) by simp
  ultimately show ?thesis using load by blast
qed

lemma cam_get_set4:
  assumes "cam_shaped c"
  shows "cam_get (cam_set (cam_set (cam_set (cam_set c 1 3 0 v0) 1 3 1 v1) 1 3 2 v2) 1 3 3 v3) a i j =
           (if a = 1 \<and> i = 3 \<and> j = 0 then v0
            else if a = 1 \<and> i = 3 \<and> j = 1 then v1
            else if a = 1 \<and> i = 3 \<and> j = 2 then v2
            else if a = 1 \<and> i = 3 \<and> j = 3 then v3
            else cam_get c a i j)"
  using assms by (auto simp: cam_get_set cam_shaped_set)

lemma cam_get_set3:
  assumes "cam_shaped c"
  shows "cam_get (cam_set (cam_set (cam_set c 1 3 0 v0) 1 3 1 v1) 1 3 2 v2) a i j =
           (if a = 1 \<and> i = 3 \<and> j = 0 then v0
            else if a = 1 \<and> i = 3 \<and> j = 1 then v1
            else if a = 1 \<and> i = 3 \<and> j = 2 then v2
            else cam_get c a i j)"
  using assms by (auto simp: cam_get_set cam_shaped_set)

lemma load_cam_29_tokens:
  assumes "blocks_parse tofloat (split_ws text)" and "length (split_ws text) = 29"
    and "tofloat (split_ws text ! 27) = Some s" and "tofloat (split_ws text ! 28) = Some i"
  shows "\<exists>c. load_cam tofloat flags_max_d text interval_scale max_d = Inr c
           \<and> depth_start c = s \<and> depth_interval c = i * interval_scale
           \<and> depth_count c = (case max_d of None \<Rightarrow> real_of_int flags_max_d | Some d \<Rightarrow> d)
           \<and> depth_end c = depth_start c + depth_interval c * depth_count c"
proof -
  let ?words = "split_ws text"
  let ?n = "case max_d of None \<Rightarrow> real_of_int flags_max_d | Some d \<Rightarrow> d"
  from load_cam_blocks [OF assms(1)]
  obtain c0 c1 where c: "fill_cells tofloat ?words 0 extrinsic_cells cam_zeros = Inr c0"
    "fill_cells tofloat ?words 1 intrinsic_cells c0 = Inr c1" "cam_shaped c1"
    by blast
  let ?c3 = "cam_set (cam_set (cam_set c1 1 3 0 s) 1 3 1 (i * interval_scale)) 1 3 2 ?n"
  let ?c = "cam_set ?c3 1 3 3 (cam_get ?c3 1 3 0 + cam_get ?c3 1 3 1 * cam_get ?c3 1 3 2)"
  have load: "load_cam tofloat flags_max_d text interval_scale max_d = Inr ?c"
    using c(1,2) assms(2-4) by (simp add: load_cam_def depth_tail_def word_at_def Let_def)
  have "depth_start ?c = s" "depth_interval ?c = i * interval_scale" "depth_count ?c = ?n"
    "depth_end ?c = s + i * interval_scale * ?n"
    unfolding depth_start_def depth_interval_def depth_count_def depth_end_def
      cam_get_set4 [OF c(3)] cam_get_set3 [OF c(3)]
    by simp_all
  then show ?thesis using load by simp
qed

lemma load_cam_30_tokens:
  assumes "blocks_parse tofloat (split_ws text)" and "length (split_ws text) = 30"
    and "tofloat (split_ws text ! 27) = Some s" and "tofloat (split_ws text ! 28) = Some i"
    and "tofloat (split_ws text ! 29) = Some n"
  shows "\<exists>c. load_cam tofloat flags_max_d text interval_scale max_d = Inr c
           \<and> depth_start c = s \<and> depth_interval c = i * interval_scale
           \<and> depth_count c = n
           \<and> depth_end c = depth_start c + depth_interval c * depth_count c"
proof -
  let ?words = "split_ws text"
  from load_cam_blocks [OF assms(1)]
  obtain c0 c1 where c: "fill_cells tofloat ?words 0 extrinsic_cells cam_zeros = Inr c0"
    "fill_cells tofloat ?words 1 intrinsic_cells c0 = Inr c1" "cam_shaped c1"
    by blast
  let ?c3 = "cam_set (cam_set (cam_set c1 1 3 0 s) 1 3 1 (i * interval_scale)) 1 3 2 n"
  let ?c = "cam_set ?c3 1 3 3 (cam_get ?c3 1 3 0 + cam_get ?c3 1 3 1 * cam_get ?c3 1 3 2)"
  have load: "load_cam tofloat flags_max_d text interval_scale max_d = Inr ?c"
    using c(1,2) assms(2-5) by (simp add: load_cam_def depth_tail_def word_at_def Let_def)
  have "depth_start ?c = s" "depth_interval ?c = i * interval_scale" "depth_count ?c = n"
    "depth_end ?c = s + i * interval_scale * n"
    unfolding depth_start_def depth_interval_def depth_count_def depth_end_def
      cam_get_set4 [OF c(3)] cam_get_set3 [OF c(3)]
    by simp_all
  then show ?thesis using load by simp
qed

lemmas decimal_eval = py_decimal_def strip_def rstrip_def is_space_def unsigned_decimal_def
  is_digit_def nat_of_digits_def digit_val_def

lemma calibration_27_words:
  "split_ws calibration_27 =
     [''extrinsic'', ''1'', ''0'', ''0'', ''0'', ''0'', ''1'', ''0'', ''0'', ''0'', ''0'', ''1'',
      ''0'', ''0'', ''0'', ''0'', ''1'', ''intrinsic'', ''2'', ''0'', ''3'', ''0'', ''2'', ''3'',
      ''0'', ''0'', ''1'']"
  by (simp add: calibration_27_def split_ws_def is_space_def)

theorem load_cam_other_token_count_example:
  "\<exists>c. load_cam py_decimal 192 calibration_27 1 None = Inr c
       \<and> depth_start c = 0 \<and> depth_interval c = 0 \<and> depth_count c = 0 \<and> depth_end c = 0
       \<and> Some (cam_get c 0 0 0) = Some 1 \<and> Some (cam_get c 1 0 2) = Some 3"
proof -
  have b: "blocks_parse py_decimal (split_ws calibration_27)"
    unfolding calibration_27_words by (simp add: blocks_parse_def upt_rec decimal_eval)
  have l: "length (split_ws calibration_27) \<noteq> 29" "length (split_ws calibration_27) \<noteq> 30"
    "length (split_ws calibration_27) \<noteq> 31"
    unfolding calibration_27_words by simp_all
  from load_cam_other_token_count [OF b l, of 192 1 None]
  obtain c where c: "load_cam py_decimal 192 calibration_27 1 None = Inr c"
    "depth_start c = 0" "depth_interval c = 0" "depth_count c = 0" "depth_end c = 0"
    "\<forall>i<4. \<forall>j<4. Some (cam_get c 0 i j) = py_decimal (split_ws calibration_27 ! (4 * i + j + 1))"
    "\<forall>i<3. \<forall>j<3. Some (cam_get c 1 i j) = py_decimal (split_ws calibration_27 ! (3 * i + j + 18))"
    by blast
  from c(6) have "Some (cam_get c 0 0 0) = py_decimal (split_ws calibration_27 ! 1)" by simp
  then have e: "Some (cam_get c 0 0 0) = Some 1"
    unfolding calibration_27_words by (simp add: decimal_eval)
  from c(7) have "Some (cam_get c 1 0 2) = py_decimal (split_ws calibration_27 ! 20)" by simp
  then have i: "Some (cam_get c 1 0 2) = Some 3"
    unfolding calibration_27_words by (simp add: decimal_eval)
  show ?thesis using c(1-5) e i by blast
qed

lemma calibration_29_words:
  "split_ws calibration_29 =
     [''extrinsic'', ''1'', ''0'', ''0'', ''0'', ''0'', ''1'', ''0'', ''0'', ''0'', ''0'', ''1'',
      ''0'', ''0'', ''0'', ''0'', ''1'', ''intrinsic'', ''2'', ''0'', ''3'', ''0'', ''2'', ''3'',
      ''0'', ''0'', ''1'', ''425'', ''2.5'']"
  by (simp add: calibration_29_def split_ws_def is_space_def)

lemma calibration_30_words:
  "split_ws calibration_30 =
     [''extrinsic'', ''1'', ''0'', ''0'', ''0'', ''0'', ''1'', ''0'', ''0'', ''0'', ''0'', ''1'',
      ''0'', ''0'', ''0'', ''0'', ''1'', ''intrinsic'', ''2'', ''0'', ''3'', ''0'', ''2'', ''3'',
      ''0'', ''0'', ''1'', ''425'', ''2.5'', ''192'']"
  by (simp add: calibration_30_def split_ws_def is_space_def)

text \<open>
  Claim C1, at a text of 29 words with start 425 and interval 2.5, read with a count of
  192 from \<^verbatim>\<open>FLAGS.max_d\<close>, and at the text of 30 words that gives the count 192 itself: the
  end that \<^verbatim>\<open>load_cam\<close> stores is \<open>425 + 2.5 * 192 = 905\<close>, where
  \<open>start + interval * (count - 1)\<close> is \<open>902.5\<close>.
\<close>

theorem load_cam_end_of_29_tokens:
  "\<exists>c c'. load_cam py_decimal 192 calibration_29 1 None = Inr c
       \<and> depth_start c = 425 \<and> depth_interval c = 5 / 2 \<and> depth_count c = 192
       \<and> depth_end c = 905
       \<and> depth_start c + depth_interval c * (depth_count c - 1) = 1805 / 2
       \<and> load_cam py_decimal 200 calibration_30 1 None = Inr c'
       \<and> depth_start c' = 425 \<and> depth_interval c' = 5 / 2 \<and> depth_count c' = 192
       \<and> depth_end c' = 905
       \<and> depth_start c' + depth_interval c' * (depth_count c' - 1) = 1805 / 2"
proof -
  have b: "blocks_parse py_decimal (split_ws calibration_29)"
    unfolding calibration_29_words by (simp add: blocks_parse_def upt_rec decimal_eval)
  have l: "length (split_ws calibration_29) = 29"
    unfolding calibration_29_words by simp
  have s: "py_decimal (split_ws calibration_29 ! 27) = Some 425"
    unfolding calibration_29_words by (simp add: decimal_eval)
  have i: "py_decimal (split_ws calibration_29 ! 28) = Some (5 / 2)"
    unfolding calibration_29_words by (simp add: decimal_eval)
  from load_cam_29_tokens [OF b l s i, of 192 1 None]
  obtain c where c: "load_cam py_decimal 192 calibration_29 1 None = Inr c"
    "depth_start c = 425" "depth_interval c = 5 / 2" "depth_count c = 192" "depth_end c = 905"
    by auto
  have b': "blocks_parse py_decimal (split_ws calibration_30)"
    unfolding calibration_30_words by (simp add: blocks_parse_def upt_rec decimal_eval)
  have l': "length (split_ws calibration_30) = 30"
    unfolding calibration_30_words by simp
  have s': "py_decimal (split_ws calibration_30 ! 27) = Some 425"
    unfolding calibration_30_words by (simp add: decimal_eval)
  have i': "py_decimal (split_ws calibration_30 ! 28) = Some (5 / 2)"
    unfolding calibration_30_words by (simp add: decimal_eval)
  have n': "py_decimal (split_ws calibration_30 ! 29) = Some 192"
    unfolding calibration_30_words by (simp add: decimal_eval)
  from load_cam_30_tokens [OF b' l' s' i' n', of 200 1 None]
  obtain c' where c': "load_cam py_decimal 200 calibration_30 1 None = Inr c'"
    "depth_start c' = 425" "depth_interval c' = 5 / 2" "depth_count c' = 192" "depth_end c' = 905"
    by auto
  have "depth_start c + depth_interval c * (depth_count c - 1) = 1805 / 2"
    "depth_start c' + depth_interval c' * (depth_count c' - 1) = 1805 / 2"
    by (simp_all add: c c')
  with c c' show ?thesis by blast
qed

subsection \<open>Scaling and cropping\<close>

lemma crop_window_total:
  "base_image_size F \<noteq> 0 \<Longrightarrow> \<exists>win. crop_window F s = Inr win"
  by (simp add: crop_window_def new_extent_def Let_def)

lemma crop_view_images:
  assumes "crop_view F cams v s = Inr s1"
  shows "v < length (cs_images s) \<and> v < length cams
       \<and> (\<exists>win. crop_window F (shape2 (cs_images s ! v)) = Inr win
             \<and> cs_images s1 = (cs_images s)[v := slice2 win (cs_images s ! v)]
             \<and> cs_window s1 = Some win)"
  using assms
  by (auto simp: crop_view_def Let_def split: if_splits sum.splits prod.splits)

lemma crop_view_total:
  assumes "v < length (cs_images s)" and "v < length cams" and "base_image_size F \<noteq> 0"
  shows "\<exists>s1. crop_view F cams v s = Inr s1"
proof -
  from crop_window_total [OF assms(3)]
  obtain win where "crop_window F (shape2 (cs_images s ! v)) = Inr win" by blast
  then show ?thesis using assms(1,2)
    by (cases win) (simp add: crop_view_def Let_def)
qed

lemma crop_loop_images:
  assumes "crop_loop F cams views s = Inr s'" and "distinct views"
  shows "length (cs_images s') = length (cs_images s)
       \<and> (\<forall>u. u \<notin> set views \<longrightarrow> cs_images s' ! u = cs_images s ! u)
       \<and> (\<forall>v \<in> set views. \<exists>win. crop_window F (shape2 (cs_images s ! v)) = Inr win
              \<and> cs_images s' ! v = slice2 win (cs_images s ! v))
       \<and> (views \<noteq> [] \<longrightarrow> (\<exists>win. crop_window F (shape2 (cs_images s ! last views)) = Inr win
              \<and> cs_window s' = Some win))
       \<and> (views = [] \<longrightarrow> s' = s)"
  using assms
proof (induction views arbitrary: s)
  case Nil
  then show ?case by simp
next
  case (Cons v views)
  from Cons.prems(1) obtain s1 where s1: "crop_view F cams v s = Inr s1"
    and rest: "crop_loop F cams views s1 = Inr s'"
    by (auto split: sum.splits)
  from crop_view_images [OF s1] obtain win where
    v: "v < length (cs_images s)" "v < length cams"
    and win: "crop_window F (shape2 (cs_images s ! v)) = Inr win"
    and im: "cs_images s1 = (cs_images s)[v := slice2 win (cs_images s ! v)]"
    and w1: "cs_window s1 = Some win"
    by blast
  from Cons.prems(2) have dist: "distinct views" and fresh: "v \<notin> set views" by simp_all
  note IH = Cons.IH [OF rest dist]
  have same: "cs_images s1 ! u = cs_images s ! u" if "u \<noteq> v" for u
    using that by (simp add: im)
  have len: "length (cs_images s') = length (cs_images s)"
    using IH by (simp add: im)
  have other: "cs_images s' ! u = cs_images s ! u" if "u \<notin> set (v # views)" for u
    using IH that same by simp
  have here: "cs_images s' ! v = slice2 win (cs_images s ! v)"
    using IH fresh v(1) by (simp add: im)
  have each: "\<exists>win. crop_window F (shape2 (cs_images s ! u)) = Inr win
                \<and> cs_images s' ! u = slice2 win (cs_images s ! u)" if "u \<in> set views" for u
  proof -
    from that fresh have "u \<noteq> v" by blast
    with IH that same show ?thesis by auto
  qed
  have lst: "\<exists>win. crop_window F (shape2 (cs_images s ! last (v # views))) = Inr win
               \<and> cs_window s' = Some win"
  proof (cases "views = []")
    case True
    with IH have "s' = s1" by simp
    with True win w1 show ?thesis by (cases win) simp
  next
    case False
    then have "last views \<in> set views" by simp
    with fresh have "last views \<noteq> v" by blast
    with IH False same show ?thesis by auto
  qed
  show ?case using len other here win each lst
    by (auto simp del: split_paired_Ex split_paired_All)
qed

lemma crop_loop_total:
  assumes "\<forall>v \<in> set views. v < length (cs_images s) \<and> v < length cams"
    and "base_image_size F \<noteq> 0"
  shows "\<exists>s'. crop_loop F cams views s = Inr s'"
  using assms(1)
proof (induction views arbitrary: s)
  case Nil
  then show ?case by simp
next
  case (Cons v views)
  then have "v < length (cs_images s)" "v < length cams" by simp_all
  from crop_view_total [OF this assms(2)] obtain s1 where s1: "crop_view F cams v s = Inr s1"
    by blast
  from crop_view_images [OF s1] have "length (cs_images s1) = length (cs_images s)" by auto
  with Cons.prems have "\<forall>v \<in> set views. v < length (cs_images s1) \<and> v < length cams" by simp
  from Cons.IH [OF this] show ?case using s1 by simp
qed

lemma crop_depth_window:
  assumes "0 < view_num F"
    and "nat (view_num F) \<le> length images" and "nat (view_num F) \<le> length cams"
    and "base_image_size F \<noteq> 0"
  shows "\<exists>res win. crop_mvs_input F st images cams (Some depth_image) = Inr res
           \<and> crop_window F (shape2 (images ! (nat (view_num F) - 1))) = Inr win
           \<and> out_depth res = Some (slice2 win depth_image)"
proof -
  let ?n = "nat (view_num F)"
  let ?s = "\<lparr>cs_images = images, cs_store = st, cs_window = None\<rparr>"
  have ne: "[0..<?n] \<noteq> []" using assms(1) by simp
  have "\<forall>v \<in> set [0..<?n]. v < length (cs_images ?s) \<and> v < length cams"
    using assms(2,3) by simp
  from crop_loop_total [OF this assms(4)]
  obtain s' where s': "crop_loop F cams [0..<?n] ?s = Inr s'" by blast
  have "last [0..<?n] = ?n - 1" using ne by simp
  with crop_loop_images [OF s'] ne
  obtain win where win: "crop_window F (shape2 (images ! (?n - 1))) = Inr win"
    "cs_window s' = Some win"
    by auto
  show ?thesis using s' win by (simp add: crop_mvs_input_def)
qed

lemma crop_view_store:
  assumes "crop_view F cams v s = Inr s1"
    and "cams ! v < length (cs_store s)" and "cam_shaped (cs_store s ! (cams ! v))"
  shows "\<exists>win. crop_window F (shape2 (cs_images s ! v)) = Inr win
           \<and> length (cs_store s1) = length (cs_store s)
           \<and> (\<forall>q. q \<noteq> cams ! v \<longrightarrow> cs_store s1 ! q = cs_store s ! q)
           \<and> cam_shaped (cs_store s1 ! (cams ! v))
           \<and> principal_point_shifted (cs_store s ! (cams ! v)) (cs_store s1 ! (cams ! v))
                (origin_x win) (origin_y win)"
proof -
  let ?r = "cams ! v" and ?st = "cs_store s"
  from assms(1) obtain start_h finish_h start_w finish_w where
    win: "crop_window F (shape2 (cs_images s ! v)) = Inr (start_h, finish_h, start_w, finish_w)"
    and st1: "cs_store s1 =
      (?st[?r := cam_set (?st ! ?r) 1 0 2 (cam_get (?st ! ?r) 1 0 2 - real_of_int start_w)])
        [?r := cam_set ((?st[?r := cam_set (?st ! ?r) 1 0 2 (cam_get (?st ! ?r) 1 0 2 - real_of_int start_w)]) ! ?r)
                 1 1 2 (cam_get ((?st[?r := cam_set (?st ! ?r) 1 0 2 (cam_get (?st ! ?r) 1 0 2 - real_of_int start_w)]) ! ?r) 1 1 2 - real_of_int start_h)]"
    by (auto simp: crop_view_def Let_def split: if_splits sum.splits prod.splits)
  let ?c1 = "cam_set (?st ! ?r) 1 0 2 (cam_get (?st ! ?r) 1 0 2 - real_of_int start_w)"
  let ?c2 = "cam_set ?c1 1 1 2 (cam_get ?c1 1 1 2 - real_of_int start_h)"
  have st1': "cs_store s1 = ?st[?r := ?c2]"
    using assms(2) by (simp add: st1)
  have sh1: "cam_shaped ?c1" using assms(3) by (rule cam_shaped_set)
  have "principal_point_shifted (?st ! ?r) ?c2 start_w start_h"
    unfolding principal_point_shifted_def using assms(3) sh1 by (auto simp: cam_get_set)
  moreover have "cs_store s1 ! ?r = ?c2" using assms(2) by (simp add: st1')
  moreover have "cam_shaped ?c2" using sh1 by (rule cam_shaped_set)
  moreover have "length (cs_store s1) = length ?st" by (simp add: st1')
  moreover have "\<forall>q. q \<noteq> ?r \<longrightarrow> cs_store s1 ! q = ?st ! q" by (simp add: st1')
  ultimately show ?thesis using win by (simp add: origin_x_def origin_y_def)
qed

lemma crop_loop_store:
  assumes "crop_loop F cams views s = Inr s'"
    and "distinct views" and "distinct (map ((!) cams) views)"
    and "\<forall>v \<in> set views. cams ! v < length (cs_store s) \<and> cam_shaped (cs_store s ! (cams ! v))"
  shows "length (cs_store s') = length (cs_store s)
       \<and> (\<forall>q. q \<notin> (!) cams ` set views \<longrightarrow> cs_store s' ! q = cs_store s ! q)
       \<and> (\<forall>v \<in> set views. \<exists>win.
             crop_window F (shape2 (cs_images s ! v)) = Inr win
           \<and> principal_point_shifted (cs_store s ! (cams ! v)) (cs_store s' ! (cams ! v))
                (origin_x win) (origin_y win))"
  using assms
proof (induction views arbitrary: s)
  case Nil
  then show ?case by simp
next
  case (Cons v views)
  from Cons.prems(1) obtain s1 where s1: "crop_view F cams v s = Inr s1"
    and rest: "crop_loop F cams views s1 = Inr s'"
    by (auto split: sum.splits)
  from Cons.prems(4) have rv: "cams ! v < length (cs_store s)" "cam_shaped (cs_store s ! (cams ! v))"
    by simp_all
  from crop_view_store [OF s1 rv] obtain win where
    win: "crop_window F (shape2 (cs_images s ! v)) = Inr win"
    and len1: "length (cs_store s1) = length (cs_store s)"
    and oth1: "\<And>q. q \<noteq> cams ! v \<Longrightarrow> cs_store s1 ! q = cs_store s ! q"
    and pp1: "principal_point_shifted (cs_store s ! (cams ! v)) (cs_store s1 ! (cams ! v))
                (origin_x win) (origin_y win)"
    by blast
  from crop_view_images [OF s1] have im: "\<And>u. u \<noteq> v \<Longrightarrow> cs_images s1 ! u = cs_images s ! u"
    by auto
  from Cons.prems(2,3) have dist: "distinct views" "distinct (map ((!) cams) views)"
    and fresh: "v \<notin> set views" "cams ! v \<notin> (!) cams ` set views"
    by auto
  have ne: "cams ! u \<noteq> cams ! v" if "u \<in> set views" for u
    using that fresh(2) by (metis imageI)
  have valid: "\<forall>u \<in> set views. cams ! u < length (cs_store s1) \<and> cam_shaped (cs_store s1 ! (cams ! u))"
    using Cons.prems(4) len1 oth1 [OF ne] by simp
  from Cons.IH [OF rest dist valid] have
    len: "length (cs_store s') = length (cs_store s1)"
    and oth: "\<And>q. q \<notin> (!) cams ` set views \<Longrightarrow> cs_store s' ! q = cs_store s1 ! q"
    and each: "\<And>u. u \<in> set views \<Longrightarrow> \<exists>win.
             crop_window F (shape2 (cs_images s1 ! u)) = Inr win
           \<and> principal_point_shifted (cs_store s1 ! (cams ! u)) (cs_store s' ! (cams ! u))
                (origin_x win) (origin_y win)"
    by blast+
  have A: "length (cs_store s') = length (cs_store s)" using len len1 by simp
  have B: "cs_store s' ! q = cs_store s ! q" if "q \<notin> (!) cams ` set (v # views)" for q
  proof -
    from that have "q \<noteq> cams ! v" "q \<notin> (!) cams ` set views" by auto
    then show ?thesis using oth oth1 by simp
  qed
  have C: "\<exists>win. crop_window F (shape2 (cs_images s ! u)) = Inr win
           \<and> principal_point_shifted (cs_store s ! (cams ! u)) (cs_store s' ! (cams ! u))
                (origin_x win) (origin_y win)" if u: "u \<in> set (v # views)" for u
  proof (cases "u = v")
    case True
    have "cs_store s' ! (cams ! v) = cs_store s1 ! (cams ! v)" using oth fresh(2) by blast
    with win pp1 True show ?thesis by auto
  next
    case False
    with u have uv: "u \<in> set views" by simp
    have "cs_store s1 ! (cams ! u) = cs_store s ! (cams ! u)" using oth1 ne [OF uv] by blast
    with each [OF uv] im [OF False] show ?thesis by simp
  qed
  show ?case using A B C by blast
qed

lemma scale_camera_result:
  assumes "r < length st" and "cam_shaped (st ! r)"
  shows "\<exists>st'. scale_camera st r scale = (st', length st)
           \<and> length st' = Suc (length st)
           \<and> (\<forall>q < length st. st' ! q = st ! q)
           \<and> intrinsics_scaled (st ! r) (st' ! length st) scale"
proof -
  let ?c = "st ! r" and ?n = "length st"
  let ?c4 = "cam_set (cam_set (cam_set (cam_set ?c 1 0 0 (cam_get ?c 1 0 0 * scale))
                 1 1 1 (cam_get ?c 1 1 1 * scale)) 1 0 2 (cam_get ?c 1 0 2 * scale))
                 1 1 2 (cam_get ?c 1 1 2 * scale)"
  have r: "r \<noteq> ?n" using assms(1) by simp
  have sc: "scale_camera st r scale = (st @ [?c4], ?n)"
    using assms(1) r by (simp add: scale_camera_def np_copy_def Let_def nth_append)
  have "intrinsics_scaled ?c ?c4 scale"
    unfolding intrinsics_scaled_def using assms(2) by (auto simp: cam_get_set cam_shaped_set)
  then show ?thesis using sc by (simp add: nth_append)
qed

lemma crop_loop_in_range:
  assumes "crop_loop F cams views s = Inr s'"
  shows "\<forall>v \<in> set views. v < length cams \<and> v < length (cs_images s)"
  using assms
proof (induction views arbitrary: s)
  case Nil
  then show ?case by simp
next
  case (Cons v views)
  from Cons.prems obtain s1 where s1: "crop_view F cams v s = Inr s1"
    and rest: "crop_loop F cams views s1 = Inr s'"
    by (auto split: sum.splits)
  from crop_view_images [OF s1] have "v < length cams" "v < length (cs_images s)"
    "length (cs_images s1) = length (cs_images s)"
    by auto
  with Cons.IH [OF rest] show ?case by simp
qed

lemma distinct_refs:
  assumes "distinct cams" and "distinct views" and "\<forall>v \<in> set views. v < length cams"
  shows "distinct (map ((!) cams) views)"
  using assms by (auto simp: distinct_map inj_on_def nth_eq_iff_index_eq)

lemma crop_mvs_input_Inr:
  assumes "crop_mvs_input F st images cams depth_image = Inr res"
  shows "\<exists>s'. crop_loop F cams [0..<nat (view_num F)]
                 \<lparr>cs_images = images, cs_store = st, cs_window = None\<rparr> = Inr s'
             \<and> out_store res = cs_store s' \<and> out_images res = cs_images s' \<and> out_cams res = cams"
  using assms by (auto simp: crop_mvs_input_def split: sum.splits option.splits)

text \<open>
  Claim C5, as the code has it. \<^verbatim>\<open>scale_camera\<close> returns a new object, with
  \<open>fx, fy, cx, cy\<close> multiplied by the scale and every other entry copied, and leaves every
  object of the store, the camera passed in among them, as it was. \<^verbatim>\<open>crop_mvs_input\<close>
  returns the references it was given and allocates nothing: it reduces \<open>cx, cy\<close> of each
  camera passed in (distinct objects) by the crop origin of its view, in place.
\<close>

theorem scale_copies_and_crop_mutates:
  assumes "crop_mvs_input F st images cams depth_image = Inr res"
    and "distinct cams"
    and "\<forall>r \<in> set cams. r < length st \<and> cam_shaped (st ! r)"
    and "v < nat (view_num F)"
  shows "(\<exists>st'. scale_camera st (cams ! v) scale = (st', length st)
            \<and> (\<forall>q < length st. st' ! q = st ! q)
            \<and> intrinsics_scaled (st ! (cams ! v)) (st' ! length st) scale)
       \<and> out_cams res = cams
       \<and> length (out_store res) = length st
       \<and> (\<exists>win. crop_window F (shape2 (images ! v)) = Inr win
            \<and> principal_point_shifted (st ! (cams ! v)) (out_store res ! (cams ! v))
                 (origin_x win) (origin_y win))"
proof -
  let ?views = "[0..<nat (view_num F)]"
  let ?s = "\<lparr>cs_images = images, cs_store = st, cs_window = None\<rparr>"
  from crop_mvs_input_Inr [OF assms(1)] obtain s' where
    s': "crop_loop F cams ?views ?s = Inr s'" and out: "out_store res = cs_store s'" "out_cams res = cams"
    by blast
  have range: "\<forall>u \<in> set ?views. u < length cams" using crop_loop_in_range [OF s'] by blast
  then have v: "cams ! v \<in> set cams" using assms(4) by simp
  have valid: "\<forall>u \<in> set ?views. cams ! u < length (cs_store ?s) \<and> cam_shaped (cs_store ?s ! (cams ! u))"
    using range assms(3) by simp
  have d: "distinct (map ((!) cams) ?views)"
    using assms(2) range by (intro distinct_refs) simp_all
  from crop_loop_store [OF s' _ d valid] have
    len: "length (cs_store s') = length st"
    and each: "\<forall>u \<in> set ?views. \<exists>win. crop_window F (shape2 (images ! u)) = Inr win
           \<and> principal_point_shifted (st ! (cams ! u)) (cs_store s' ! (cams ! u))
                (origin_x win) (origin_y win)"
    by simp_all
  from each assms(4) have crop: "\<exists>win. crop_window F (shape2 (images ! v)) = Inr win
           \<and> principal_point_shifted (st ! (cams ! v)) (cs_store s' ! (cams ! v))
                (origin_x win) (origin_y win)"
    by simp
  from assms(3) v have "cams ! v < length st" "cam_shaped (st ! (cams ! v))" by blast+
  from scale_camera_result [OF this, of scale]
  have "\<exists>st'. scale_camera st (cams ! v) scale = (st', length st)
            \<and> (\<forall>q < length st. st' ! q = st ! q)
            \<and> intrinsics_scaled (st ! (cams ! v)) (st' ! length st) scale"
    by blast
  then show ?thesis using out len crop by simp
qed

lemma example_cam_shaped: "cam_shaped example_cam"
  by (simp add: cam_shaped_def example_cam_def)

lemma crop_start_div: "crop_start n new_n = (int n - new_n + 1) div 2"
proof -
  have "\<lceil>real_of_int (int n - new_n) / real_of_int 2\<rceil> = - (- (int n - new_n) div 2)"
    by (rule ceiling_divide_eq_div)
  then show ?thesis by (simp add: crop_start_def)
qed

lemma example_crop:
  "crop_mvs_input example_flags [example_cam, example_cam] [image_3x3, image_5x5] [0, 1] (Some depth_5x5)
     = Inr \<lparr>out_images = [[[0, 0], [0, 0]], [[0, 0], [0, 0]]], out_cams = [0, 1],
            out_depth = Some [[22, 23], [32, 33]],
            out_store = [cam_set (cam_set example_cam 1 0 2 9) 1 1 2 19,
                         cam_set (cam_set example_cam 1 0 2 8) 1 1 2 18]\<rparr>"
  by (simp add: crop_mvs_input_def crop_view_def crop_window_def new_extent_def crop_start_div
      example_flags_def image_3x3_def image_5x5_def depth_5x5_def shape2_def slice2_def
      py_slice_def slice_bound_def Let_def cam_get_def cam_set_def example_cam_def upt_rec)

lemmas crop_eval = crop_mvs_input_def crop_view_def crop_window_def new_extent_def crop_start_div
  example_flags_def image_3x3_def image_5x5_def depth_5x5_def shape2_def slice2_def
  py_slice_def slice_bound_def Let_def cam_get_def cam_set_def example_cam_def upt_rec

text \<open>
  Two cameras at the references 0 and 1 of the store, cropped with their views: the call
  returns the references it was given, and the objects they refer to have changed.
\<close>

theorem crop_mutates_camera_passed_in:
  "crop_mvs_input example_flags [example_cam, example_cam] [image_3x3, image_5x5] [0, 1]
       (None :: nat image option)
     = Inr \<lparr>out_images = [[[0, 0], [0, 0]], [[0, 0], [0, 0]]], out_cams = [0, 1],
            out_depth = None,
            out_store = [cam_set (cam_set example_cam 1 0 2 9) 1 1 2 19,
                         cam_set (cam_set example_cam 1 0 2 8) 1 1 2 18]\<rparr>
   \<and> cam_set (cam_set example_cam 1 0 2 9) 1 1 2 19 \<noteq> example_cam"
  by (simp add: crop_eval)

theorem scale_copies_and_crop_mutates_example:
  "\<exists>res st'. crop_mvs_input example_flags [example_cam, example_cam] [image_3x3, image_5x5] [0, 1]
                 (None :: nat image option) = Inr res
       \<and> out_cams res = [0, 1]
       \<and> cam_get (out_store res ! 0) 1 0 2 = 9 \<and> cam_get (out_store res ! 0) 1 1 2 = 19
       \<and> cam_get (out_store res ! 0) 1 0 0 = 100
       \<and> scale_camera [example_cam, example_cam] 0 (1 / 2) = (st', 2)
       \<and> st' ! 0 = example_cam
       \<and> cam_get (st' ! 2) 1 0 2 = 5 \<and> cam_get (st' ! 2) 1 0 0 = 50
       \<and> cam_get (st' ! 2) 1 3 0 = 425"
proof -
  let ?st = "[example_cam, example_cam]"
  obtain res where res: "crop_mvs_input example_flags ?st [image_3x3, image_5x5] [0, 1]
                 (None :: nat image option) = Inr res"
    by (simp add: crop_eval)
  have d: "distinct [0, 1 :: nat]" by simp
  have v: "\<forall>r \<in> set [0, 1 :: nat]. r < length ?st \<and> cam_shaped (?st ! r)"
    by (simp add: example_cam_shaped)
  have n: "0 < nat (view_num example_flags)" by (simp add: example_flags_def)
  from scale_copies_and_crop_mutates [OF res d v n, of "1 / 2"]
  obtain st' win where
    sc1: "scale_camera ?st ([0, 1] ! 0) (1 / 2) = (st', length ?st)"
    and sc2: "\<forall>q < length ?st. st' ! q = ?st ! q"
    and sc3: "intrinsics_scaled (?st ! ([0, 1] ! 0)) (st' ! length ?st) (1 / 2)"
    and cr1: "out_cams res = [0, 1]"
    and cr2: "crop_window example_flags (shape2 ([image_3x3, image_5x5] ! 0)) = Inr win"
    and cr3: "principal_point_shifted (?st ! ([0, 1] ! 0)) (out_store res ! ([0, 1] ! 0))
               (origin_x win) (origin_y win)"
    by blast
  from cr2 have win: "win = (1, 3, 1, 3)" by (simp add: crop_eval)
  have l: "length ?st = 2" by simp
  from cr3 have pp: "principal_point_shifted example_cam (out_store res ! 0) 1 1"
    by (simp add: win origin_x_def origin_y_def)
  have "cam_get (out_store res ! 0) 1 0 2 = 9" "cam_get (out_store res ! 0) 1 1 2 = 19"
    "cam_get (out_store res ! 0) 1 0 0 = 100"
    unfolding pp [unfolded principal_point_shifted_def, rule_format]
    by (simp_all add: cam_get_def example_cam_def)
  moreover from sc3 have scaled: "intrinsics_scaled example_cam (st' ! 2) (1 / 2)"
    unfolding l by simp
  have "cam_get (st' ! 2) 1 0 2 = 5" "cam_get (st' ! 2) 1 0 0 = 50" "cam_get (st' ! 2) 1 3 0 = 425"
    unfolding scaled [unfolded intrinsics_scaled_def, rule_format]
    by (simp_all add: cam_get_def example_cam_def)
  moreover from sc2 have "st' ! 0 = example_cam" by simp
  moreover from sc1 have "scale_camera ?st 0 (1 / 2) = (st', 2)" unfolding l by simp
  ultimately show ?thesis using res cr1 by blast
qed

text \<open>
  Claim C10, as the code has it. When a depth image is given (and the loop runs at least
  once without raising), \<^verbatim>\<open>crop_mvs_input\<close> crops it with the window (origin and extent)
  computed in the last pass of the loop, from the image of the last view, not with the
  window of the reference view 0; the two windows are the same whenever the last view
  has the size of the reference view.
\<close>

theorem depth_image_cropped_with_last_window:
  assumes "0 < view_num F"
    and "nat (view_num F) \<le> length images" and "nat (view_num F) \<le> length cams"
    and "base_image_size F \<noteq> 0"
  shows "\<exists>res win. crop_mvs_input F st images cams (Some depth_image) = Inr res
           \<and> crop_window F (shape2 (images ! (nat (view_num F) - 1))) = Inr win
           \<and> out_depth res = Some (slice2 win depth_image)
           \<and> (shape2 (images ! (nat (view_num F) - 1)) = shape2 (images ! 0)
                \<longrightarrow> crop_window F (shape2 (images ! 0)) = Inr win)"
  using crop_depth_window [OF assms, of st depth_image]
  by (auto simp del: split_paired_Ex)

theorem depth_image_cropped_with_last_window_example:
  "\<exists>res. crop_mvs_input example_flags [example_cam, example_cam] [image_3x3, image_5x5] [0, 1]
             (Some depth_5x5) = Inr res
       \<and> crop_window example_flags (shape2 image_5x5) = Inr (2, 4, 2, 4)
       \<and> crop_window example_flags (shape2 image_3x3) = Inr (1, 3, 1, 3)
       \<and> out_depth res = Some [[22, 23], [32, 33]]"
proof -
  have a: "0 < view_num example_flags" by (simp add: example_flags_def)
  have b: "nat (view_num example_flags) \<le> length [image_3x3, image_5x5]"
    and c: "nat (view_num example_flags) \<le> length [0, 1 :: nat]"
    and d: "base_image_size example_flags \<noteq> 0"
    by (simp_all add: example_flags_def)
  from depth_image_cropped_with_last_window [OF a b c d, of "[example_cam, example_cam]" depth_5x5]
  obtain res win where
    r: "crop_mvs_input example_flags [example_cam, example_cam] [image_3x3, image_5x5] [0, 1]
             (Some depth_5x5) = Inr res"
    and w: "crop_window example_flags (shape2 ([image_3x3, image_5x5] ! (nat (view_num example_flags) - 1))) = Inr win"
    and o: "out_depth res = Some (slice2 win depth_5x5)"
    by blast
  have n: "nat (view_num example_flags) - 1 = 1" by (simp add: example_flags_def)
  from w have win: "win = (2, 4, 2, 4)" unfolding n by (simp add: crop_eval)
  have "slice2 (2, 4, 2, 4) depth_5x5 = [[22, 23], [32, 33]]" by (simp add: crop_eval)
  moreover have "crop_window example_flags (shape2 image_5x5) = Inr (2, 4, 2, 4)"
    "crop_window example_flags (shape2 image_3x3) = Inr (1, 3, 1, 3)"
    by (simp_all add: crop_eval)
  ultimately show ?thesis using r o win by simp
qed

text \<open>
  Three views of sizes 3 x 3, 5 x 5 and 3 x 3: the window of the last view is that of the
  reference view, although the second view has another size.
\<close>

theorem windows_coincide_without_shared_size:
  "crop_window (example_flags\<lparr>view_num := 3\<rparr>) (shape2 ([image_3x3, image_5x5, image_3x3] ! 2))
     = crop_window (example_flags\<lparr>view_num := 3\<rparr>) (shape2 ([image_3x3, image_5x5, image_3x3] ! 0))
   \<and> shape2 ([image_3x3, image_5x5, image_3x3] ! 1) \<noteq> shape2 ([image_3x3, image_5x5, image_3x3] ! 0)"
  by (simp add: crop_eval)

subsection \<open>The PFM codec\<close>








lemma not_digit [simp]:
  "\<not> is_digit newline" "\<not> is_digit (CHR '' '')" "\<not> is_digit (CHR ''.'')" "\<not> is_digit (CHR ''-'')"
  by (simp_all add: is_digit_def newline_def)

lemma space_chars [simp]: "is_space newline" "is_space (CHR '' '')"
  by (simp_all add: is_space_def newline_def)





lemma takeWhile_all_digits: "list_all is_digit ds \<Longrightarrow> takeWhile is_digit ds = ds"
  by (induction ds) simp_all

lemma dropWhile_all_digits: "list_all is_digit ds \<Longrightarrow> dropWhile is_digit ds = []"
  by (induction ds) simp_all














































end
